theory Spec2Isabelle
  imports Complex_Main "HOL-Library.Signed_Division"
begin

section \<open>The circular buffer of main.go\<close>

text \<open>
  The Go source keeps \<^verbatim>\<open>float64\<close> samples in a slice of fixed length and four
  \<^verbatim>\<open>int\<close> fields. Every method takes the buffer's lock on entry and releases it on
  return, so each method is one atomic transition of the buffer; each is modelled as a
  function from the state before the call to the returned value and the state after it.

  \<^item> A \<^verbatim>\<open>float64\<close> is a value of a type \<open>'a\<close> that has the zero value \<open>0\<close>, the
    addition \<open>+\<close> and the division \<open>/\<close> of the type; nothing is assumed of them. The
    conversion \<^verbatim>\<open>float64(n)\<close> of an \<^verbatim>\<open>int\<close> is a parameter \<open>f64\<close>.
  \<^item> A Go \<^verbatim>\<open>int\<close> is a 64-bit two's complement integer: an \<open>int\<close> of HOL, with the
    wrap-around of \<^verbatim>\<open>+\<close> and \<^verbatim>\<open>-\<close> written out as \<open>wrap64\<close>; \<^verbatim>\<open>%\<close> truncates
    towards zero (\<open>smod\<close>) and panics on a zero divisor.
  \<^item> A run-time panic is a value \<open>Inl p\<close>; a normal return is \<open>Inr\<close>.
\<close>

subsection \<open>Go's integers, slices and panics\<close>

datatype panic = MakeSliceLenOutOfRange | IndexOutOfRange | IntegerDivideByZero

definition wrap64 :: "int \<Rightarrow> int" where
  "wrap64 x = (x + 2 ^ 63) mod 2 ^ 64 - 2 ^ 63"

text \<open>\<^verbatim>\<open>a % b\<close> on \<^verbatim>\<open>int\<close>.\<close>

definition go_rem :: "int \<Rightarrow> int \<Rightarrow> panic + int" where
  "go_rem a b = (if b = 0 then Inl IntegerDivideByZero else Inr (a smod b))"

text \<open>\<^verbatim>\<open>xs[i]\<close> read and \<^verbatim>\<open>xs[i] = v\<close> written, with the bounds check of the run time.\<close>

definition index :: "'a list \<Rightarrow> int \<Rightarrow> panic + 'a" where
  "index xs i = (if 0 \<le> i \<and> i < int (length xs) then Inr (xs ! nat i) else Inl IndexOutOfRange)"

definition store :: "'a list \<Rightarrow> int \<Rightarrow> 'a \<Rightarrow> panic + 'a list" where
  "store xs i v =
     (if 0 \<le> i \<and> i < int (length xs) then Inr (xs[nat i := v]) else Inl IndexOutOfRange)"

text \<open>
  \<^verbatim>\<open>make([]float64, n)\<close>: a slice of \<open>n\<close> zero values. The run time panics when \<open>n\<close> is
  negative or when the \<open>8 * n\<close> bytes exceed \<open>maxAlloc\<close>, the largest allocation it
  admits (\<open>2 ^ 48\<close> bytes on the 64-bit platforms).
\<close>

definition maxAlloc :: int where
  "maxAlloc = 2 ^ 48"

definition make_slice :: "int \<Rightarrow> panic + ('a::zero) list" where
  "make_slice n = (if n < 0 \<or> maxAlloc < 8 * n then Inl MakeSliceLenOutOfRange
             else Inr (replicate (nat n) 0))"

subsection \<open>The buffer and its methods\<close>

record 'a CircularBuffer =
  buffer :: "'a list"
  size_cb :: int
  head :: int
  tail :: int
  count :: int

definition NewCircularBuffer :: "int \<Rightarrow> panic + ('a::zero) CircularBuffer" where
  "NewCircularBuffer sz =
     (case make_slice sz of
        Inl p \<Rightarrow> Inl p
      | Inr b \<Rightarrow> Inr \<lparr>buffer = b, size_cb = sz, head = 0, tail = 0, count = 0\<rparr>)"

text \<open>
  \<open>Push\<close>: the first component of the result is the returned \<^verbatim>\<open>poppedItem\<close>, which is
  declared with the zero value and assigned only in the branch of a full buffer.
\<close>

definition Push :: "'a \<Rightarrow> ('a::zero) CircularBuffer \<Rightarrow> panic + ('a \<times> 'a CircularBuffer)" where
  "Push item cb =
     (case
        (if count cb = size_cb cb then
           (case index (buffer cb) (tail cb) of
              Inl p \<Rightarrow> Inl p
            | Inr x \<Rightarrow>
                (case go_rem (wrap64 (tail cb + 1)) (size_cb cb) of
                   Inl p \<Rightarrow> Inl p
                 | Inr t \<Rightarrow> Inr (x, cb\<lparr>tail := t\<rparr>)))
         else Inr (0, cb\<lparr>count := wrap64 (count cb + 1)\<rparr>))
      of
        Inl p \<Rightarrow> Inl p
      | Inr (poppedItem, cb1) \<Rightarrow>
          (case store (buffer cb1) (head cb1) item of
             Inl p \<Rightarrow> Inl p
           | Inr b \<Rightarrow>
               (case go_rem (wrap64 (head cb1 + 1)) (size_cb cb1) of
                  Inl p \<Rightarrow> Inl p
                | Inr h \<Rightarrow> Inr (poppedItem, cb1\<lparr>buffer := b, head := h\<rparr>))))"

definition Pop :: "('a::zero) CircularBuffer \<Rightarrow> panic + (('a \<times> bool) \<times> 'a CircularBuffer)" where
  "Pop cb =
     (if count cb = 0 then Inr ((0, False), cb)
      else
        (case index (buffer cb) (tail cb) of
           Inl p \<Rightarrow> Inl p
         | Inr item \<Rightarrow>
             (case go_rem (wrap64 (tail cb + 1)) (size_cb cb) of
                Inl p \<Rightarrow> Inl p
              | Inr t \<Rightarrow> Inr ((item, True), cb\<lparr>tail := t, count := wrap64 (count cb - 1)\<rparr>))))"

text \<open>
  The loop of \<open>Average\<close>, from the iteration with counter \<open>i\<close> and the partial sum
  \<open>s\<close> (\<^verbatim>\<open>sum\<close> in the source).
  The counter is below \<open>count cb\<close> when it is incremented, so \<^verbatim>\<open>i++\<close> cannot wrap.
\<close>

function Average_loop :: "('a::plus) CircularBuffer \<Rightarrow> int \<Rightarrow> 'a \<Rightarrow> panic + 'a" where
  "Average_loop cb i s =
     (if i < count cb then
        (case go_rem (wrap64 (tail cb + i)) (size_cb cb) of
           Inl p \<Rightarrow> Inl p
         | Inr idx \<Rightarrow>
             (case index (buffer cb) idx of
                Inl p \<Rightarrow> Inl p
              | Inr x \<Rightarrow> Average_loop cb (i + 1) (s + x)))
      else Inr s)"
  by pat_completeness auto
termination
  by (relation "measure (\<lambda>(cb, i, s). nat (count cb - i))") auto

definition Average ::
  "(int \<Rightarrow> 'a) \<Rightarrow> ('a::{zero,plus,inverse}) CircularBuffer \<Rightarrow> panic + ('a \<times> 'a CircularBuffer)" where
  "Average f64 cb =
     (if count cb = 0 then Inr (0, cb)
      else
        (case Average_loop cb 0 0 of
           Inl p \<Rightarrow> Inl p
         | Inr s \<Rightarrow> Inr (s / f64 (count cb), cb)))"

text \<open>
  What \<open>PrintBuffer\<close> writes to the standard output, as a sequence of pieces: a literal
  text, or a \<^verbatim>\<open>float64\<close> formatted by the verb \<^verbatim>\<open>%.2f\<close>.
\<close>

datatype 'a printed = Text string | Float2 'a

function PrintBuffer_loop :: "'a CircularBuffer \<Rightarrow> int \<Rightarrow> 'a printed list \<Rightarrow> panic + 'a printed list" where
  "PrintBuffer_loop cb i out =
     (if i < count cb then
        (case go_rem (wrap64 (tail cb + i)) (size_cb cb) of
           Inl p \<Rightarrow> Inl p
         | Inr idx \<Rightarrow>
             (case index (buffer cb) idx of
                Inl p \<Rightarrow> Inl p
              | Inr x \<Rightarrow> PrintBuffer_loop cb (i + 1) (out @ [Float2 x, Text '' ''])))
      else Inr out)"
  by pat_completeness auto
termination
  by (relation "measure (\<lambda>(cb, i, out). nat (count cb - i))") auto

declare Average_loop.simps [simp del] PrintBuffer_loop.simps [simp del]

definition PrintBuffer :: "'a CircularBuffer \<Rightarrow> panic + ('a printed list \<times> 'a CircularBuffer)" where
  "PrintBuffer cb =
     (if count cb = 0 then Inr ([Text ''Buffer contents (tail to head): '', Text ''empty\<newline>''], cb)
      else
        (case PrintBuffer_loop cb 0 [Text ''Buffer contents (tail to head): ''] of
           Inl p \<Rightarrow> Inl p
         | Inr out \<Rightarrow> Inr (out @ [Text ''\<newline>''], cb)))"

subsection \<open>Snapshot: the values that PrintBuffer prints\<close>

text \<open>
  The source has no method that returns the contents; \<open>PrintBuffer\<close> prints them from the
  oldest to the newest. \<open>Snapshot\<close> is the sequence of the values \<open>PrintBuffer\<close> formats,
  in the order it prints them.
\<close>

fun floats_of :: "'a printed list \<Rightarrow> 'a list" where
  "floats_of [] = []"
| "floats_of (Text t # out) = floats_of out"
| "floats_of (Float2 x # out) = x # floats_of out"

definition Snapshot :: "'a CircularBuffer \<Rightarrow> panic + ('a list \<times> 'a CircularBuffer)" where
  "Snapshot cb =
     (case PrintBuffer cb of
        Inl p \<Rightarrow> Inl p
      | Inr (out, cb') \<Rightarrow> Inr (floats_of out, cb'))"

subsection \<open>Sequences of calls\<close>

datatype 'a call = Insert 'a | RemoveOldest

fun call_step :: "('a::zero) call \<Rightarrow> 'a CircularBuffer \<Rightarrow> panic + 'a CircularBuffer" where
  "call_step (Insert v) cb = (case Push v cb of Inl p \<Rightarrow> Inl p | Inr (x, cb') \<Rightarrow> Inr cb')"
| "call_step RemoveOldest cb = (case Pop cb of Inl p \<Rightarrow> Inl p | Inr (r, cb') \<Rightarrow> Inr cb')"

fun run :: "('a::zero) call list \<Rightarrow> 'a CircularBuffer \<Rightarrow> panic + 'a CircularBuffer" where
  "run [] cb = Inr cb"
| "run (c # cs) cb = (case call_step c cb of Inl p \<Rightarrow> Inl p | Inr cb' \<Rightarrow> run cs cb')"

text \<open>
  \<open>push_all\<close> pushes the values of a list one after the other and records, for each
  \<open>Push\<close>, whether the buffer was full when it was called (the branch that evicts) and
  the value it returned.
\<close>

fun push_all ::
  "'a list \<Rightarrow> ('a::zero) CircularBuffer \<Rightarrow> panic + ((bool \<times> 'a) list \<times> 'a CircularBuffer)" where
  "push_all [] cb = Inr ([], cb)"
| "push_all (v # vs) cb =
     (case Push v cb of
        Inl p \<Rightarrow> Inl p
      | Inr (x, cb') \<Rightarrow>
          (case push_all vs cb' of
             Inl p \<Rightarrow> Inl p
           | Inr (xs, cb'') \<Rightarrow> Inr ((count cb = size_cb cb, x) # xs, cb'')))"

text \<open>\<open>times n f\<close> calls the method \<open>f\<close> \<open>n\<close> times in a row and collects what it returns.\<close>

fun times :: "nat \<Rightarrow> ('s \<Rightarrow> panic + ('r \<times> 's)) \<Rightarrow> 's \<Rightarrow> panic + ('r list \<times> 's)" where
  "times 0 f s = Inr ([], s)"
| "times (Suc n) f s =
     (case f s of
        Inl p \<Rightarrow> Inl p
      | Inr (r, s') \<Rightarrow>
          (case times n f s' of
             Inl p \<Rightarrow> Inl p
           | Inr (rs, s'') \<Rightarrow> Inr (r # rs, s'')))"

subsection \<open>The states of a buffer and the queue it stands for\<close>

text \<open>
  \<open>valid\<close> collects what holds of the fields of every buffer that \<open>NewCircularBuffer\<close>
  returned for a positive size, after any calls: the slice has \<open>size_cb\<close> slots, the
  indices are in range, and \<open>head\<close> is \<open>count\<close> slots after \<open>tail\<close>, around the ring.
\<close>

definition valid :: "'a CircularBuffer \<Rightarrow> bool" where
  "valid cb \<longleftrightarrow>
     0 < size_cb cb \<and> 8 * size_cb cb \<le> maxAlloc \<and> int (length (buffer cb)) = size_cb cb \<and>
     0 \<le> count cb \<and> count cb \<le> size_cb cb \<and>
     0 \<le> tail cb \<and> tail cb < size_cb cb \<and>
     head cb = (tail cb + count cb) mod size_cb cb"

text \<open>The values in the slots \<open>(tail + i) mod size\<close> for \<open>i\<close> in \<open>[0, count)\<close>.\<close>

definition live_slots :: "'a CircularBuffer \<Rightarrow> 'a list" where
  "live_slots cb =
     map (\<lambda>i. buffer cb ! nat ((tail cb + int i) mod size_cb cb)) [0..<nat (count cb)]"

text \<open>
  The queue of the specification: the live elements, oldest first. An insertion into a
  queue of \<open>k\<close> elements drops the oldest; a removal from the empty queue changes nothing.
\<close>

fun fifo_step :: "nat \<Rightarrow> 'a list \<Rightarrow> 'a call \<Rightarrow> 'a list" where
  "fifo_step k q (Insert v) = (if length q = k then tl q else q) @ [v]"
| "fifo_step k q RemoveOldest = (if q = [] then [] else tl q)"

definition fifo :: "nat \<Rightarrow> 'a call list \<Rightarrow> 'a list" where
  "fifo k cs = foldl (fifo_step k) [] cs"

text \<open>The state in which \<open>Push\<close> leaves a valid buffer.\<close>

definition push_state :: "'a \<Rightarrow> 'a CircularBuffer \<Rightarrow> 'a CircularBuffer" where
  "push_state v cb =
     cb\<lparr>buffer := (buffer cb)[nat (head cb) := v],
       head := (head cb + 1) mod size_cb cb,
       tail := (if count cb = size_cb cb then (tail cb + 1) mod size_cb cb else tail cb),
       count := (if count cb = size_cb cb then count cb else count cb + 1)\<rparr>"

section \<open>Properties\<close>

subsection \<open>Integer arithmetic in range\<close>

lemma wrap64_id: "- (2 ^ 63) \<le> x \<Longrightarrow> x < 2 ^ 63 \<Longrightarrow> wrap64 x = x"
  unfolding wrap64_def by (simp add: mod_pos_pos_trivial)

lemma smod_eq_mod: "0 \<le> a \<Longrightarrow> 0 < b \<Longrightarrow> a smod b = a mod (b::int)"
  by (simp add: signed_modulo_int_def sgn_if)

lemma go_rem_eq: "0 \<le> a \<Longrightarrow> 0 < b \<Longrightarrow> go_rem a b = Inr (a mod b)"
  by (simp add: go_rem_def smod_eq_mod)

lemma mod_shift_inj:
  fixes n t i j :: int
  assumes "0 \<le> i" "i < n" "0 \<le> j" "j < n" "(t + i) mod n = (t + j) mod n"
  shows "i = j"
proof (rule ccontr)
  assume ne: "i \<noteq> j"
  have d: "n dvd (i - j)"
    using assms(5) by (simp add: mod_eq_dvd_iff)
  show False
  proof (cases "j < i")
    case True
    with d have "n \<le> i - j" by (intro zdvd_imp_le) simp_all
    with assms show False by simp
  next
    case False
    with ne have lt: "i < j" by simp
    from d have "n dvd (j - i)" by (simp add: dvd_diff_commute)
    with lt have "n \<le> j - i" by (intro zdvd_imp_le) simp_all
    with assms show False by simp
  qed
qed

subsection \<open>Push and Pop on a valid buffer\<close>

lemma Push_eq:
  assumes "valid cb"
  shows "Push v cb =
     Inr (if count cb = size_cb cb then buffer cb ! nat (tail cb) else 0,
          cb\<lparr>buffer := (buffer cb)[nat (head cb) := v],
            head := (head cb + 1) mod size_cb cb,
            tail := (if count cb = size_cb cb then (tail cb + 1) mod size_cb cb else tail cb),
            count := (if count cb = size_cb cb then count cb else count cb + 1)\<rparr>)"
proof -
  from assms have b: "size_cb cb < 2 ^ 45 + 1" "0 < size_cb cb"
    "int (length (buffer cb)) = size_cb cb" "0 \<le> count cb" "count cb \<le> size_cb cb"
    "0 \<le> tail cb" "tail cb < size_cb cb" "0 \<le> head cb" "head cb < size_cb cb"
    by (simp_all add: valid_def maxAlloc_def)
  have w: "wrap64 (tail cb + 1) = tail cb + 1" "wrap64 (head cb + 1) = head cb + 1"
    "wrap64 (count cb + 1) = count cb + 1"
    using b by (simp_all add: wrap64_id)
  show ?thesis
    using b by (simp add: Push_def w index_def store_def go_rem_eq)
qed

lemma Pop_eq:
  assumes "valid cb" "count cb \<noteq> 0"
  shows "Pop cb =
     Inr ((buffer cb ! nat (tail cb), True),
          cb\<lparr>tail := (tail cb + 1) mod size_cb cb, count := count cb - 1\<rparr>)"
proof -
  from assms have b: "size_cb cb < 2 ^ 45 + 1" "0 < size_cb cb"
    "int (length (buffer cb)) = size_cb cb" "0 \<le> count cb" "count cb \<le> size_cb cb"
    "0 \<le> tail cb" "tail cb < size_cb cb"
    by (simp_all add: valid_def maxAlloc_def)
  have w: "wrap64 (tail cb + 1) = tail cb + 1" "wrap64 (count cb - 1) = count cb - 1"
    using b by (simp_all add: wrap64_id)
  show ?thesis
    using b assms(2) by (simp add: Pop_def w index_def go_rem_eq)
qed


lemma valid_push_state:
  assumes "valid cb"
  shows "valid (push_state v cb)"
proof (cases "count cb = size_cb cb")
  case True
  with assms show ?thesis
    by (simp add: valid_def push_state_def mod_add_left_eq)
next
  case False
  with assms show ?thesis
    by (simp add: valid_def push_state_def mod_add_left_eq add.assoc)
qed

lemma valid_pop_state:
  assumes "valid cb" "count cb \<noteq> 0"
  shows "valid (cb\<lparr>tail := (tail cb + 1) mod size_cb cb, count := count cb - 1\<rparr>)"
  using assms by (simp add: valid_def mod_add_left_eq)

lemma map_upt_shift:
  assumes "0 < n"
    and inner: "\<And>i. Suc i < n \<Longrightarrow> g i = f (Suc i)"
    and last: "\<And>i. Suc i = n \<Longrightarrow> g i = v"
  shows "map g [0..<n] = tl (map f [0..<n]) @ [v]"
proof -
  from assms(1) obtain m where n: "n = Suc m"
    by (cases n) simp_all
  have "[0..<Suc m] = 0 # map Suc [0..<m]"
    by (simp only: map_Suc_upt upt_conv_Cons [of 0 "Suc m"] zero_less_Suc)
  then have "tl (map f [0..<Suc m]) = map (\<lambda>i. f (Suc i)) [0..<m]"
    by (simp only: list.map list.sel map_map comp_def)
  moreover have "map g [0..<m] = map (\<lambda>i. f (Suc i)) [0..<m]"
    using inner n by simp
  moreover have "g m = v"
    using last n by simp
  ultimately show ?thesis
    using n by simp
qed

lemma live_slots_push_state:
  assumes "valid cb"
  shows "live_slots (push_state v cb) =
     (if count cb = size_cb cb then tl (live_slots cb) else live_slots cb) @ [v]"
proof (cases "count cb = size_cb cb")
  case full: True
  from assms have b: "0 < size_cb cb" "int (length (buffer cb)) = size_cb cb"
    "0 \<le> tail cb" "tail cb < size_cb cb"
    by (simp_all add: valid_def)
  from assms full have ht: "head cb = tail cb"
    by (simp add: valid_def)
  let ?n = "nat (size_cb cb)"
  let ?f = "\<lambda>i. buffer cb ! nat ((tail cb + int i) mod size_cb cb)"
  let ?g = "\<lambda>i. (buffer cb)[nat (tail cb) := v] !
                 nat (((tail cb + 1) mod size_cb cb + int i) mod size_cb cb)"
  have shift: "((tail cb + 1) mod size_cb cb + int i) mod size_cb cb =
               (tail cb + int (Suc i)) mod size_cb cb" for i
  proof -
    have "((tail cb + 1) mod size_cb cb + int i) mod size_cb cb =
          (tail cb + 1 + int i) mod size_cb cb"
      by (rule mod_add_left_eq)
    also have "tail cb + 1 + int i = tail cb + int (Suc i)"
      by simp
    finally show ?thesis .
  qed
  have inner: "?g i = ?f (Suc i)" if "Suc i < ?n" for i
  proof -
    have lt: "int (Suc i) < size_cb cb"
      using that by linarith
    have "(tail cb + int (Suc i)) mod size_cb cb \<noteq> (tail cb + 0) mod size_cb cb"
    proof
      assume "(tail cb + int (Suc i)) mod size_cb cb = (tail cb + 0) mod size_cb cb"
      from mod_shift_inj [OF _ lt _ b(1) this] show False by simp
    qed
    then have "nat ((tail cb + int (Suc i)) mod size_cb cb) \<noteq> nat (tail cb)"
      using b by (simp add: nat_eq_iff)
    then show ?thesis
      unfolding shift by simp
  qed
  have last: "?g i = v" if "Suc i = ?n" for i
  proof -
    from that b have "int (Suc i) = size_cb cb" by linarith
    then have "(tail cb + int (Suc i)) mod size_cb cb = tail cb"
      using b by simp
    then show ?thesis
      using b by (simp only: shift) simp
  qed
  have lhs: "live_slots (push_state v cb) = map ?g [0..<?n]"
    using full ht by (simp add: live_slots_def push_state_def)
  have rhs: "live_slots cb = map ?f [0..<?n]"
    using full by (simp add: live_slots_def)
  have "map ?g [0..<?n] = tl (map ?f [0..<?n]) @ [v]"
  proof (rule map_upt_shift)
    show "0 < ?n" using b by simp
  qed (fact inner, fact last)
  then show ?thesis
    using full by (simp add: lhs rhs)
next
  case False
  from assms False have b: "0 < size_cb cb" "int (length (buffer cb)) = size_cb cb"
    "0 \<le> count cb" "count cb < size_cb cb" "0 \<le> head cb" "head cb < size_cb cb"
    by (simp_all add: valid_def)
  from assms have hd: "head cb = (tail cb + count cb) mod size_cb cb"
    by (simp add: valid_def)
  let ?n = "nat (count cb)"
  let ?f = "\<lambda>i. buffer cb ! nat ((tail cb + int i) mod size_cb cb)"
  let ?g = "\<lambda>i. (buffer cb)[nat (head cb) := v] ! nat ((tail cb + int i) mod size_cb cb)"
  have inner: "?g i = ?f i" if "i < ?n" for i
  proof -
    have lt: "int i < count cb"
      using that by linarith
    have "(tail cb + int i) mod size_cb cb \<noteq> (tail cb + count cb) mod size_cb cb"
    proof
      assume "(tail cb + int i) mod size_cb cb = (tail cb + count cb) mod size_cb cb"
      from mod_shift_inj [OF _ _ b(3) b(4) this] lt b(4) show False by simp
    qed
    then have "nat ((tail cb + int i) mod size_cb cb) \<noteq> nat (head cb)"
      using b hd by (simp add: nat_eq_iff)
    then show ?thesis
      by simp
  qed
  have hl: "nat (head cb) < length (buffer cb)"
    using b by linarith
  have "(tail cb + int ?n) mod size_cb cb = head cb"
    using b hd by simp
  then have last: "?g ?n = v"
    using hl by (simp only: nth_list_update_eq)
  have "live_slots (push_state v cb) = map ?g [0..<Suc ?n]"
    using False b by (simp add: live_slots_def push_state_def nat_add_distrib)
  also have "\<dots> = map ?g [0..<?n] @ [?g ?n]"
    by simp
  also have "map ?g [0..<?n] = map ?f [0..<?n]"
    using inner by simp
  finally show ?thesis
    using False last by (simp add: live_slots_def)
qed

subsection \<open>The live slots, the loops and the queue\<close>

lemma length_live_slots: "length (live_slots cb) = nat (count cb)"
  by (simp add: live_slots_def)

lemma tl_map_upt: "tl (map f [0..<n]) = map (\<lambda>i. f (Suc i)) [0..<n - 1]"
proof (cases n)
  case 0
  then show ?thesis by simp
next
  case (Suc m)
  have "[0..<Suc m] = 0 # map Suc [0..<m]"
    by (simp only: map_Suc_upt upt_conv_Cons [of 0 "Suc m"] zero_less_Suc)
  then have "tl (map f [0..<Suc m]) = map (\<lambda>i. f (Suc i)) [0..<m]"
    by (simp only: list.map list.sel map_map comp_def)
  with Suc show ?thesis by simp
qed

lemma mod_succ_shift:
  "((t + 1) mod n + int i) mod n = (t + int (Suc i)) mod (n::int)"
proof -
  have "((t + 1) mod n + int i) mod n = (t + 1 + int i) mod n"
    by (rule mod_add_left_eq)
  also have "t + 1 + int i = t + int (Suc i)"
    by simp
  finally show ?thesis .
qed

lemma live_slots_pop_state:
  assumes "valid cb" "count cb \<noteq> 0"
  shows "live_slots (cb\<lparr>tail := (tail cb + 1) mod size_cb cb, count := count cb - 1\<rparr>) =
         tl (live_slots cb)"
proof -
  from assms have "nat (count cb - 1) = nat (count cb) - 1"
    by (simp add: valid_def nat_diff_distrib)
  then show ?thesis
    by (simp add: live_slots_def tl_map_upt mod_succ_shift del: of_nat_Suc)
qed

lemma hd_live_slots:
  assumes "valid cb" "count cb \<noteq> 0"
  shows "hd (live_slots cb) = buffer cb ! nat (tail cb)"
proof -
  from assms have "0 < nat (count cb)" by (simp add: valid_def)
  then have "[0..<nat (count cb)] = 0 # [Suc 0..<nat (count cb)]"
    by (simp add: upt_conv_Cons)
  then show ?thesis
    using assms(1) by (simp add: live_slots_def valid_def)
qed

lemma nth_live_slots:
  assumes "valid cb" "0 \<le> i" "i < count cb"
  shows "live_slots cb ! nat i = buffer cb ! nat ((tail cb + i) mod size_cb cb)"
  using assms by (simp add: live_slots_def)

lemma loop_index:
  assumes "valid cb" "0 \<le> i" "i < count cb"
  shows "go_rem (wrap64 (tail cb + i)) (size_cb cb) = Inr ((tail cb + i) mod size_cb cb)"
    and "index (buffer cb) ((tail cb + i) mod size_cb cb) = Inr (live_slots cb ! nat i)"
proof -
  from assms have b: "size_cb cb < 2 ^ 45 + 1" "0 < size_cb cb"
    "int (length (buffer cb)) = size_cb cb" "0 \<le> tail cb" "tail cb < size_cb cb"
    "count cb \<le> size_cb cb"
    by (simp_all add: valid_def maxAlloc_def)
  have "wrap64 (tail cb + i) = tail cb + i"
    using b assms by (simp add: wrap64_id)
  then show "go_rem (wrap64 (tail cb + i)) (size_cb cb) = Inr ((tail cb + i) mod size_cb cb)"
    using b assms by (simp add: go_rem_eq)
  show "index (buffer cb) ((tail cb + i) mod size_cb cb) = Inr (live_slots cb ! nat i)"
    using b by (simp add: index_def nth_live_slots [OF assms])
qed

lemma Average_loop_eq:
  assumes "valid cb" "0 \<le> i"
  shows "Average_loop cb i s = Inr (foldl (+) s (drop (nat i) (live_slots cb)))"
  using assms
proof (induction cb i s rule: Average_loop.induct)
  case (1 cb i s)
  show ?case
  proof (cases "i < count cb")
    case True
    note ix = loop_index [OF "1.prems"(1) "1.prems"(2) True]
    have "Average_loop cb (i + 1) (s + live_slots cb ! nat i) =
          Inr (foldl (+) (s + live_slots cb ! nat i) (drop (nat (i + 1)) (live_slots cb)))"
      using "1.prems" by (intro "1.IH" [OF True ix]) simp_all
    moreover have "drop (nat i) (live_slots cb) =
                   live_slots cb ! nat i # drop (nat (i + 1)) (live_slots cb)"
      using True "1.prems"(2)
      by (simp add: Cons_nth_drop_Suc length_live_slots nat_add_distrib)
    ultimately show ?thesis
      using True by (subst Average_loop.simps) (simp add: ix)
  next
    case False
    with "1.prems" have "drop (nat i) (live_slots cb) = []"
      by (simp add: length_live_slots)
    with False show ?thesis
      by (subst Average_loop.simps) simp
  qed
qed

lemma PrintBuffer_loop_eq:
  assumes "valid cb" "0 \<le> i"
  shows "\<exists>ys. PrintBuffer_loop cb i out = Inr (out @ ys) \<and>
           floats_of ys = drop (nat i) (live_slots cb)"
  using assms
proof (induction cb i out rule: PrintBuffer_loop.induct)
  case (1 cb i out)
  show ?case
  proof (cases "i < count cb")
    case True
    note ix = loop_index [OF "1.prems"(1) "1.prems"(2) True]
    have "\<exists>ys. PrintBuffer_loop cb (i + 1) (out @ [Float2 (live_slots cb ! nat i), Text '' '']) =
               Inr ((out @ [Float2 (live_slots cb ! nat i), Text '' '']) @ ys) \<and>
               floats_of ys = drop (nat (i + 1)) (live_slots cb)"
      using "1.prems" by (intro "1.IH" [OF True ix]) simp_all
    then obtain ys where ys:
      "PrintBuffer_loop cb (i + 1) (out @ [Float2 (live_slots cb ! nat i), Text '' '']) =
         Inr ((out @ [Float2 (live_slots cb ! nat i), Text '' '']) @ ys)"
      "floats_of ys = drop (nat (i + 1)) (live_slots cb)"
      by blast
    have d: "drop (nat i) (live_slots cb) =
             live_slots cb ! nat i # drop (nat (i + 1)) (live_slots cb)"
      using True "1.prems"(2)
      by (simp add: Cons_nth_drop_Suc length_live_slots nat_add_distrib)
    have "PrintBuffer_loop cb i out =
          Inr (out @ ([Float2 (live_slots cb ! nat i), Text '' ''] @ ys))"
      using True ys(1) by (subst PrintBuffer_loop.simps) (simp add: ix)
    moreover have "floats_of ([Float2 (live_slots cb ! nat i), Text '' ''] @ ys) =
                   drop (nat i) (live_slots cb)"
      using ys(2) d by simp
    ultimately show ?thesis by blast
  next
    case False
    with "1.prems" have "drop (nat i) (live_slots cb) = []"
      by (simp add: length_live_slots)
    moreover from False have "PrintBuffer_loop cb i out = Inr (out @ [])"
      by (subst PrintBuffer_loop.simps) simp
    ultimately show ?thesis by (metis floats_of.simps(1))
  qed
qed


lemma Average_eq:
  assumes "valid cb"
  shows "Average f64 cb =
     Inr (if count cb = 0 then 0 else foldl (+) 0 (live_slots cb) / f64 (count cb), cb)"
  using Average_loop_eq [OF assms, of 0 0] by (simp add: Average_def)

lemma Snapshot_eq:
  assumes "valid cb"
  shows "Snapshot cb = Inr (live_slots cb, cb)"
proof (cases "count cb = 0")
  case True
  then have "live_slots cb = []" by (simp add: live_slots_def)
  with True show ?thesis by (simp add: Snapshot_def PrintBuffer_def)
next
  case False
  from PrintBuffer_loop_eq [OF assms, of 0 "[Text ''Buffer contents (tail to head): '']"]
  obtain ys where ys:
    "PrintBuffer_loop cb 0 [Text ''Buffer contents (tail to head): ''] =
       Inr ([Text ''Buffer contents (tail to head): ''] @ ys)"
    "floats_of ys = live_slots cb"
    by auto
  have "floats_of (ys @ [Text ''\<newline>'']) = floats_of ys"
    by (induction ys rule: floats_of.induct) simp_all
  with False ys show ?thesis
    by (simp add: Snapshot_def PrintBuffer_def)
qed

lemma valid_New:
  assumes "NewCircularBuffer k = Inr cb" "0 < k"
  shows "valid cb" and "size_cb cb = k" and "live_slots cb = []" and "count cb = 0"
  using assms
  by (auto simp add: NewCircularBuffer_def make_slice_def valid_def live_slots_def
      split: if_splits)

lemma Push_valid:
  assumes "valid cb"
  shows "Push v cb =
           Inr (if count cb = size_cb cb then hd (live_slots cb) else 0, push_state v cb)"
  using assms Push_eq [OF assms, of v] hd_live_slots [OF assms]
  by (auto simp add: push_state_def valid_def)

lemma size_push_state: "size_cb (push_state v cb) = size_cb cb"
  by (simp add: push_state_def)

lemma full_iff_length:
  assumes "valid cb"
  shows "count cb = size_cb cb \<longleftrightarrow> length (live_slots cb) = nat (size_cb cb)"
  using assms by (auto simp add: length_live_slots valid_def)

lemma empty_iff_Nil:
  assumes "valid cb"
  shows "count cb = 0 \<longleftrightarrow> live_slots cb = []"
  using assms length_live_slots [of cb] by (auto simp add: valid_def)

lemma call_step_refines:
  assumes "valid cb"
  shows "\<exists>cb'. call_step c cb = Inr cb' \<and> valid cb' \<and> size_cb cb' = size_cb cb \<and>
           live_slots cb' = fifo_step (nat (size_cb cb)) (live_slots cb) c"
proof (cases c)
  case (Insert v)
  then show ?thesis
    using valid_push_state [OF assms, of v] live_slots_push_state [OF assms, of v]
      full_iff_length [OF assms]
    by (simp add: Push_valid [OF assms] size_push_state)
next
  case RemoveOldest
  show ?thesis
  proof (cases "count cb = 0")
    case True
    with assms RemoveOldest show ?thesis
      using empty_iff_Nil [OF assms] by (simp add: Pop_def)
  next
    case False
    with assms RemoveOldest show ?thesis
      using valid_pop_state [OF assms False] live_slots_pop_state [OF assms False]
        empty_iff_Nil [OF assms]
      by (simp add: Pop_eq [OF assms False])
  qed
qed

lemma run_refines:
  assumes "valid cb"
  shows "\<exists>cb'. run cs cb = Inr cb' \<and> valid cb' \<and> size_cb cb' = size_cb cb \<and>
           live_slots cb' = foldl (fifo_step (nat (size_cb cb))) (live_slots cb) cs"
  using assms
proof (induction cs arbitrary: cb)
  case Nil
  then show ?case by simp
next
  case (Cons c cs)
  from call_step_refines [OF Cons.prems, of c] obtain cb1 where s:
    "call_step c cb = Inr cb1" "valid cb1" "size_cb cb1 = size_cb cb"
    "live_slots cb1 = fifo_step (nat (size_cb cb)) (live_slots cb) c"
    by blast
  from Cons.IH [OF s(2)] s show ?case
    by simp
qed

lemma push_all_fill:
  assumes "valid cb" "count cb + int (length vs) \<le> size_cb cb"
  shows "\<exists>cb'. push_all vs cb = Inr (map (\<lambda>v. (False, 0)) vs, cb') \<and> valid cb' \<and>
           size_cb cb' = size_cb cb \<and> live_slots cb' = live_slots cb @ vs \<and>
           count cb' = count cb + int (length vs)"
  using assms
proof (induction vs arbitrary: cb)
  case Nil
  then show ?case by simp
next
  case (Cons v vs)
  from Cons.prems have nf: "count cb \<noteq> size_cb cb"
    by simp
  let ?cb = "push_state v cb"
  have v: "valid ?cb"
    by (rule valid_push_state [OF Cons.prems(1)])
  have c: "count ?cb = count cb + 1" "size_cb ?cb = size_cb cb"
    using nf by (simp_all add: push_state_def)
  have l: "live_slots ?cb = live_slots cb @ [v]"
    using nf live_slots_push_state [OF Cons.prems(1), of v] by simp
  from Cons.prems(2) c have "count ?cb + int (length vs) \<le> size_cb ?cb"
    by simp
  from Cons.IH [OF v this] obtain cb' where
    "push_all vs ?cb = Inr (map (\<lambda>v. (False, 0)) vs, cb')" "valid cb'"
    "size_cb cb' = size_cb ?cb" "live_slots cb' = live_slots ?cb @ vs"
    "count cb' = count ?cb + int (length vs)"
    by blast
  with nf c l show ?case
    by (simp add: Push_valid [OF Cons.prems(1)])
qed

subsection \<open>The reading methods leave the state as it is\<close>

lemma Average_state:
  assumes "Average f64 cb = Inr (r, cb')"
  shows "cb' = cb"
proof (cases "count cb = 0")
  case True
  with assms show ?thesis by (simp add: Average_def)
next
  case False
  with assms show ?thesis
    by (cases "Average_loop cb 0 0") (simp_all add: Average_def)
qed

lemma Snapshot_state:
  assumes "Snapshot cb = Inr (xs, cb')"
  shows "cb' = cb"
proof (cases "count cb = 0")
  case True
  with assms show ?thesis by (auto simp add: Snapshot_def PrintBuffer_def)
next
  case False
  with assms show ?thesis
    by (cases "PrintBuffer_loop cb 0 [Text ''Buffer contents (tail to head): '']")
      (auto simp add: Snapshot_def PrintBuffer_def)
qed

lemma times_same:
  assumes "f s = Inr (r, s)"
  shows "times n f s = Inr (replicate n r, s)"
  using assms by (induction n) simp_all

section \<open>The claims of the specification\<close>

text \<open>
  Claim C1. For every buffer constructed with a capacity \<open>k > 0\<close> and every sequence of
  Insert and RemoveOldest calls, the calls return and the state after them satisfies the
  invariant: the capacity is still \<open>k\<close>, \<open>0 \<le> count \<le> capacity\<close>, the slots
  \<open>(tail + i) mod capacity\<close> for \<open>i\<close> in \<open>[0, count)\<close> hold the live elements (the queue
  of the specification, oldest first), \<open>head = (tail + count) mod capacity\<close> when
  \<open>0 < count < capacity\<close>, and \<open>head = tail\<close> when \<open>count = capacity\<close>. The sequence
  of calls is arbitrary, so this is the state after each call of a longer sequence.
\<close>

theorem state_invariant_after_calls:
  assumes "NewCircularBuffer k = Inr cb0" and "0 < k"
  shows "\<exists>cb. run cs cb0 = Inr cb \<and> size_cb cb = k \<and> int (length (buffer cb)) = k \<and>
           0 \<le> count cb \<and> count cb \<le> size_cb cb \<and>
           live_slots cb = fifo (nat k) cs \<and>
           (0 < count cb \<and> count cb < size_cb cb \<longrightarrow>
              head cb = (tail cb + count cb) mod size_cb cb) \<and>
           (count cb = size_cb cb \<longrightarrow> head cb = tail cb)"
proof -
  note new = valid_New [OF assms]
  from run_refines [OF new(1), of cs] obtain cb where cb:
    "run cs cb0 = Inr cb" "valid cb" "size_cb cb = size_cb cb0"
    "live_slots cb = foldl (fifo_step (nat (size_cb cb0))) (live_slots cb0) cs"
    by blast
  from cb(2) have "count cb = size_cb cb \<longrightarrow> head cb = tail cb"
    by (simp add: valid_def)
  with cb new show ?thesis
    by (simp add: fifo_def valid_def)
qed

theorem state_invariant_after_calls_witness:
  "NewCircularBuffer 2 =
     Inr \<lparr>buffer = [0, 0 :: real], size_cb = 2, head = 0, tail = 0, count = 0\<rparr> \<and>
   (0::int) < 2 \<and>
   run [Insert 1, Insert 2, Insert 3, RemoveOldest]
     \<lparr>buffer = [0, 0 :: real], size_cb = 2, head = 0, tail = 0, count = 0\<rparr> =
     Inr \<lparr>buffer = [3, 2], size_cb = 2, head = 1, tail = 0, count = 1\<rparr> \<and>
   fifo (nat 2) [Insert 1, Insert 2, Insert 3, RemoveOldest] = [3 :: real]"
proof -
  let ?c0 = "\<lparr>buffer = [0, 0 :: real], size_cb = 2, head = 0, tail = 0, count = 0\<rparr>"
  let ?cs = "[Insert 1, Insert 2, Insert 3, RemoveOldest :: real call]"
  have h1: "NewCircularBuffer 2 = Inr ?c0"
    by (simp add: NewCircularBuffer_def make_slice_def maxAlloc_def numeral_2_eq_2)
  have h2: "(0::int) < 2"
    by simp
  have r: "run ?cs ?c0 = Inr \<lparr>buffer = [3, 2], size_cb = 2, head = 1, tail = 0, count = 1\<rparr>"
    by (simp add: Push_def Pop_def index_def store_def go_rem_def wrap64_def
        signed_modulo_int_def)
  from state_invariant_after_calls [OF h1 h2, of ?cs] obtain cb where
    cb: "run ?cs ?c0 = Inr cb" "live_slots cb = fifo (nat 2) ?cs"
    by blast
  from r cb(1) have "cb = \<lparr>buffer = [3, 2], size_cb = 2, head = 1, tail = 0, count = 1\<rparr>"
    by (simp only: sum.inject)
  with cb(2) have "fifo (nat 2) ?cs = [3 :: real]"
    by (simp add: live_slots_def)
  with h1 h2 r show ?thesis
    by blast
qed

text \<open>
  Claim C2. For every capacity \<open>k > 0\<close> and values \<open>v0, ..., v(k-1)\<close> (the list
  \<open>v0 # rest\<close>) and \<open>vk\<close>: the \<open>k\<close> insertions into the new buffer fill it and evict
  nothing, the insertion of \<open>vk\<close> that follows returns the evicted \<open>v0\<close>, and Snapshot
  then returns \<open>v1, ..., vk\<close> in that order.
\<close>

theorem fifo_eviction:
  assumes "NewCircularBuffer k = Inr cb0" and "int (length (v0 # rest)) = k"
  shows "\<exists>cb1 cb2.
           push_all (v0 # rest) cb0 = Inr (replicate (length (v0 # rest)) (False, 0), cb1) \<and>
           count cb1 = size_cb cb1 \<and>
           Push vk cb1 = Inr (v0, cb2) \<and>
           Snapshot cb2 = Inr (rest @ [vk], cb2)"
proof -
  from assms(2) have k: "0 < k" by auto
  note new = valid_New [OF assms(1) k]
  from assms(2) new have "count cb0 + int (length (v0 # rest)) \<le> size_cb cb0"
    by simp
  from push_all_fill [OF new(1) this] obtain cb1 where cb1:
    "push_all (v0 # rest) cb0 = Inr (map (\<lambda>v. (False, 0)) (v0 # rest), cb1)" "valid cb1"
    "size_cb cb1 = size_cb cb0" "live_slots cb1 = live_slots cb0 @ (v0 # rest)"
    "count cb1 = count cb0 + int (length (v0 # rest))"
    by blast
  from cb1 new assms(2) have full: "count cb1 = size_cb cb1"
    by simp
  from cb1(4) new(3) have l: "live_slots cb1 = v0 # rest"
    by simp
  have p: "Push vk cb1 = Inr (v0, push_state vk cb1)"
    using full l by (simp add: Push_valid [OF cb1(2)])
  have "live_slots (push_state vk cb1) = rest @ [vk]"
    using full l by (simp add: live_slots_push_state [OF cb1(2)])
  then have "Snapshot (push_state vk cb1) = Inr (rest @ [vk], push_state vk cb1)"
    by (simp add: Snapshot_eq [OF valid_push_state [OF cb1(2)]])
  moreover have "map (\<lambda>v. (False, 0 :: 'a)) (v0 # rest) = replicate (length (v0 # rest)) (False, 0)"
    by (simp only: map_replicate_const)
  ultimately show ?thesis
    using cb1(1) full p by (simp only:) blast
qed

theorem fifo_eviction_witness:
  "NewCircularBuffer 3 =
     Inr \<lparr>buffer = [0, 0, 0 :: real], size_cb = 3, head = 0, tail = 0, count = 0\<rparr> \<and>
   int (length [10, 20, 30 :: real]) = 3 \<and>
   (\<exists>cb1 cb2.
      push_all [10, 20, 30] \<lparr>buffer = [0, 0, 0 :: real], size_cb = 3, head = 0, tail = 0, count = 0\<rparr> =
        Inr (replicate (length [10, 20, 30 :: real]) (False, 0), cb1) \<and>
      count cb1 = size_cb cb1 \<and>
      Push 40 cb1 = Inr (10, cb2) \<and>
      Snapshot cb2 = Inr ([20, 30] @ [40], cb2))"
proof -
  have h1: "NewCircularBuffer 3 =
     Inr \<lparr>buffer = [0, 0, 0 :: real], size_cb = 3, head = 0, tail = 0, count = 0\<rparr>"
    by (simp add: NewCircularBuffer_def make_slice_def maxAlloc_def numeral_3_eq_3)
  have h2: "int (length [10, 20, 30 :: real]) = 3"
    by simp
  from fifo_eviction [OF h1 h2, of 40] h1 h2 show ?thesis
    by blast
qed

text \<open>
  Claim C3. The scenario of the driver: a buffer of capacity 5 and the pushes of
  \<open>0, 1, 2, 3, 4, 5, 6\<close>, in this order. The first five pushes find the buffer not full
  and return the zero value, the push of 5 evicts 0, the push of 6 evicts 1, the contents
  are then \<open>2, 3, 4, 5, 6\<close> from the oldest to the newest, and Average returns 4. The
  values are \<^verbatim>\<open>float64(i)\<close>; of the arithmetic of \<^verbatim>\<open>float64\<close> the statement uses that
  \<^verbatim>\<open>float64(0)\<close> is the zero value and that sums and exact quotients of integers up to
  \<open>2 ^ 53\<close> are computed exactly, as IEEE 754 arithmetic does.
\<close>

theorem scenario_capacity_5:
  fixes f64 :: "int \<Rightarrow> 'a::{zero,plus,inverse}"
  assumes zero: "f64 0 = 0"
    and add: "\<And>a b. 0 \<le> a \<Longrightarrow> 0 \<le> b \<Longrightarrow> a + b \<le> 2 ^ 53 \<Longrightarrow> f64 a + f64 b = f64 (a + b)"
    and div: "\<And>a b. 0 \<le> a \<Longrightarrow> a \<le> 2 ^ 53 \<Longrightarrow> 0 < b \<Longrightarrow> b dvd a \<Longrightarrow>
                f64 a / f64 b = f64 (a div b)"
  shows "NewCircularBuffer 5 =
           Inr \<lparr>buffer = [0, 0, 0, 0, 0 :: 'a], size_cb = 5, head = 0, tail = 0, count = 0\<rparr> \<and>
         push_all (map f64 [0, 1, 2, 3, 4, 5, 6])
           \<lparr>buffer = [0, 0, 0, 0, 0], size_cb = 5, head = 0, tail = 0, count = 0\<rparr> =
           Inr ([(False, 0), (False, 0), (False, 0), (False, 0), (False, 0),
                 (True, f64 0), (True, f64 1)],
                \<lparr>buffer = [f64 5, f64 6, f64 2, f64 3, f64 4],
                   size_cb = 5, head = 2, tail = 2, count = 5\<rparr>) \<and>
         Snapshot \<lparr>buffer = [f64 5, f64 6, f64 2, f64 3, f64 4],
                    size_cb = 5, head = 2, tail = 2, count = 5\<rparr> =
           Inr (map f64 [2, 3, 4, 5, 6],
                \<lparr>buffer = [f64 5, f64 6, f64 2, f64 3, f64 4],
                   size_cb = 5, head = 2, tail = 2, count = 5\<rparr>) \<and>
         Average f64 \<lparr>buffer = [f64 5, f64 6, f64 2, f64 3, f64 4],
                       size_cb = 5, head = 2, tail = 2, count = 5\<rparr> =
           Inr (f64 4,
                \<lparr>buffer = [f64 5, f64 6, f64 2, f64 3, f64 4],
                   size_cb = 5, head = 2, tail = 2, count = 5\<rparr>)"
proof -
  let ?c0 = "\<lparr>buffer = [0, 0, 0, 0, 0 :: 'a], size_cb = 5, head = 0, tail = 0, count = 0\<rparr>"
  let ?cb = "\<lparr>buffer = [f64 5, f64 6, f64 2, f64 3, f64 4],
               size_cb = 5, head = 2, tail = 2, count = 5\<rparr>"
  have new: "NewCircularBuffer 5 = Inr ?c0"
    by (simp add: NewCircularBuffer_def make_slice_def maxAlloc_def eval_nat_numeral)
  have w: "wrap64 1 = 1" "wrap64 2 = 2" "wrap64 3 = 3" "wrap64 4 = 4" "wrap64 5 = 5"
    by (simp_all add: wrap64_def)
  have pushes: "push_all (map f64 [0, 1, 2, 3, 4, 5, 6]) ?c0 =
      Inr ([(False, 0), (False, 0), (False, 0), (False, 0), (False, 0),
            (True, f64 0), (True, f64 1)], ?cb)"
    by (simp add: Push_def index_def store_def go_rem_def w signed_modulo_int_def
        eval_nat_numeral)
  have v: "valid ?cb"
    by (simp add: valid_def maxAlloc_def)
  have u: "[0..<5] = [0, 1, 2, 3, 4 :: nat]"
    by (simp add: upt_rec)
  have l: "live_slots ?cb = map f64 [2, 3, 4, 5, 6]"
    by (simp add: live_slots_def u eval_nat_numeral)
  have snap: "Snapshot ?cb = Inr (map f64 [2, 3, 4, 5, 6], ?cb)"
    by (simp only: Snapshot_eq [OF v] l)
  have "foldl (+) 0 (map f64 [2, 3, 4, 5, 6]) = f64 20"
    by (simp add: zero [symmetric] add)
  moreover have "f64 20 / f64 5 = f64 4"
    using div [of 20 5] by simp
  ultimately have avg: "Average f64 ?cb = Inr (f64 4, ?cb)"
    by (simp add: Average_eq [OF v] l)
  from new pushes snap avg show ?thesis
    by (intro conjI)
qed

theorem scenario_capacity_5_witness:
  "real_of_int 0 = 0 \<and>
   Average real_of_int
     \<lparr>buffer = [real_of_int 5, real_of_int 6, real_of_int 2, real_of_int 3, real_of_int 4],
        size_cb = 5, head = 2, tail = 2, count = 5\<rparr> =
     Inr (real_of_int 4,
          \<lparr>buffer = [real_of_int 5, real_of_int 6, real_of_int 2, real_of_int 3, real_of_int 4],
             size_cb = 5, head = 2, tail = 2, count = 5\<rparr>)"
proof -
  have z: "real_of_int 0 = 0"
    by simp
  have a: "\<And>a b. 0 \<le> a \<Longrightarrow> 0 \<le> b \<Longrightarrow> a + b \<le> 2 ^ 53 \<Longrightarrow>
             real_of_int a + real_of_int b = real_of_int (a + b)"
    by simp
  have d: "\<And>a b. 0 \<le> a \<Longrightarrow> a \<le> 2 ^ 53 \<Longrightarrow> 0 < b \<Longrightarrow> b dvd a \<Longrightarrow>
             real_of_int a / real_of_int b = real_of_int (a div b)"
    by (simp add: real_of_int_div)
  from scenario_capacity_5 [of real_of_int, OF z a d] z show ?thesis
    by blast
qed

text \<open>
  Claim C4. On every buffer of a positive capacity (a valid state), Insert (\<open>Push\<close>)
  returns. When \<open>count = capacity\<close> the element of slot \<open>tail\<close> is the evicted value,
  \<open>tail\<close> advances to \<open>(tail + 1) mod capacity\<close> and \<open>count\<close> stays; otherwise nothing is
  evicted (the zero value is returned) and \<open>count\<close> grows by one. In both cases the
  value is written into slot \<open>head\<close> and \<open>head\<close> advances to \<open>(head + 1) mod capacity\<close>.
\<close>

theorem Push_step:
  assumes "valid cb"
  shows "\<exists>evicted cb'. Push v cb = Inr (evicted, cb') \<and>
           (if count cb = size_cb cb
            then evicted = buffer cb ! nat (tail cb) \<and>
                 tail cb' = (tail cb + 1) mod size_cb cb \<and> count cb' = count cb
            else evicted = 0 \<and> tail cb' = tail cb \<and> count cb' = count cb + 1) \<and>
           buffer cb' = (buffer cb)[nat (head cb) := v] \<and>
           head cb' = (head cb + 1) mod size_cb cb \<and>
           size_cb cb' = size_cb cb"
  by (simp add: Push_eq [OF assms])

theorem Push_step_witness:
  "valid \<lparr>buffer = [3, 2 :: real], size_cb = 2, head = 1, tail = 1, count = 2\<rparr> \<and>
   Push 4 \<lparr>buffer = [3, 2 :: real], size_cb = 2, head = 1, tail = 1, count = 2\<rparr> =
     Inr (2, \<lparr>buffer = [3, 4], size_cb = 2, head = 0, tail = 0, count = 2\<rparr>)"
proof -
  let ?cb = "\<lparr>buffer = [3, 2 :: real], size_cb = 2, head = 1, tail = 1, count = 2\<rparr>"
  have h: "valid ?cb"
    by (simp add: valid_def maxAlloc_def)
  from Push_step [OF h, of 4] obtain x cb' where
    "Push 4 ?cb = Inr (x, cb')" "x = 2" "tail cb' = 0" "count cb' = 2"
    "buffer cb' = [3, 4]" "head cb' = 0" "size_cb cb' = 2"
    by auto
  then have "Push 4 ?cb = Inr (2, \<lparr>buffer = [3, 4], size_cb = 2, head = 0, tail = 0, count = 2\<rparr>)"
    by (cases cb') simp
  with h show ?thesis by blast
qed

text \<open>
  Claim C5, as stated: Insert returns, with the evicted value, a flag that tells
  "nothing evicted" from "a zero evicted". \<open>Push\<close> returns one \<^verbatim>\<open>float64\<close> and no flag.
  In a buffer of capacity 1, the first push of 0 evicts nothing and returns 0; the next
  push evicts that 0 and returns 0 as well.
\<close>

theorem Push_zero_ambiguous:
  "Push 0 \<lparr>buffer = [0 :: real], size_cb = 1, head = 0, tail = 0, count = 0\<rparr> =
     Inr (0, \<lparr>buffer = [0], size_cb = 1, head = 0, tail = 0, count = 1\<rparr>) \<and>
   count \<lparr>buffer = [0 :: real], size_cb = 1, head = 0, tail = 0, count = 0\<rparr> \<noteq>
     size_cb \<lparr>buffer = [0 :: real], size_cb = 1, head = 0, tail = 0, count = 0\<rparr> \<and>
   Push 7 \<lparr>buffer = [0 :: real], size_cb = 1, head = 0, tail = 0, count = 1\<rparr> =
     Inr (0, \<lparr>buffer = [7], size_cb = 1, head = 0, tail = 0, count = 1\<rparr>) \<and>
   count \<lparr>buffer = [0 :: real], size_cb = 1, head = 0, tail = 0, count = 1\<rparr> =
     size_cb \<lparr>buffer = [0 :: real], size_cb = 1, head = 0, tail = 0, count = 1\<rparr>"
  by (simp add: Push_def index_def store_def go_rem_def wrap64_def signed_modulo_int_def)

text \<open>
  Claim C5, amended. On every valid buffer, Insert (\<open>Push\<close>) returns a single value
  and no flag: the element of slot \<open>tail\<close> when \<open>count = capacity\<close>, and the zero value
  when nothing is evicted.
\<close>

theorem Push_returns_value_only:
  assumes "valid cb"
  shows "\<exists>cb'. Push v cb =
           Inr (if count cb = size_cb cb then buffer cb ! nat (tail cb) else 0, cb')"
  by (simp add: Push_eq [OF assms])

theorem Push_returns_value_only_witness:
  "valid \<lparr>buffer = [0 :: real], size_cb = 1, head = 0, tail = 0, count = 1\<rparr> \<and>
   (\<exists>cb'. Push 7 \<lparr>buffer = [0 :: real], size_cb = 1, head = 0, tail = 0, count = 1\<rparr> =
      Inr (0, cb'))"
proof -
  have h: "valid \<lparr>buffer = [0 :: real], size_cb = 1, head = 0, tail = 0, count = 1\<rparr>"
    by (simp add: valid_def maxAlloc_def)
  from Push_returns_value_only [OF h, of 7] h show ?thesis
    by simp
qed

text \<open>
  Claim C6. On every valid buffer with \<open>count > 0\<close>, RemoveOldest (\<open>Pop\<close>) returns the
  element of slot \<open>tail\<close> with the flag true, advances \<open>tail\<close> to
  \<open>(tail + 1) mod capacity\<close> and decrements \<open>count\<close>; the storage, \<open>head\<close> and the
  capacity stay.
\<close>

theorem Pop_step:
  assumes "valid cb" and "0 < count cb"
  shows "\<exists>cb'. Pop cb = Inr ((buffer cb ! nat (tail cb), True), cb') \<and>
           tail cb' = (tail cb + 1) mod size_cb cb \<and> count cb' = count cb - 1 \<and>
           buffer cb' = buffer cb \<and> head cb' = head cb \<and> size_cb cb' = size_cb cb"
  using assms by (simp add: Pop_eq)

theorem Pop_step_witness:
  "valid \<lparr>buffer = [3, 2 :: real], size_cb = 2, head = 1, tail = 1, count = 2\<rparr> \<and>
   (0::int) < count \<lparr>buffer = [3, 2 :: real], size_cb = 2, head = 1, tail = 1, count = 2\<rparr> \<and>
   Pop \<lparr>buffer = [3, 2 :: real], size_cb = 2, head = 1, tail = 1, count = 2\<rparr> =
     Inr ((2, True), \<lparr>buffer = [3, 2], size_cb = 2, head = 1, tail = 0, count = 1\<rparr>)"
proof -
  let ?cb = "\<lparr>buffer = [3, 2 :: real], size_cb = 2, head = 1, tail = 1, count = 2\<rparr>"
  have h: "valid ?cb"
    by (simp add: valid_def maxAlloc_def)
  have c: "0 < count ?cb"
    by simp
  from Pop_step [OF h c] obtain cb' where
    "Pop ?cb = Inr ((2, True), cb')" "tail cb' = 0" "count cb' = 1"
    "buffer cb' = [3, 2]" "head cb' = 1" "size_cb cb' = 2"
    by auto
  then have "Pop ?cb = Inr ((2, True), \<lparr>buffer = [3, 2], size_cb = 2, head = 1, tail = 0, count = 1\<rparr>)"
    by (cases cb') simp
  with h c show ?thesis by blast
qed

text \<open>
  Claim C7. On every buffer with \<open>count = 0\<close>, RemoveOldest (\<open>Pop\<close>) returns the zero value
  with the flag false, without a panic, and leaves the state (storage, head, tail and
  count) as it was.
\<close>

theorem Pop_empty: "count cb = 0 \<Longrightarrow> Pop cb = Inr ((0, False), cb)"
  by (simp add: Pop_def)

theorem Pop_empty_witness:
  "count \<lparr>buffer = [0, 0 :: real], size_cb = 2, head = 0, tail = 0, count = 0\<rparr> = 0 \<and>
   NewCircularBuffer 2 = Inr \<lparr>buffer = [0, 0 :: real], size_cb = 2, head = 0, tail = 0, count = 0\<rparr> \<and>
   Pop \<lparr>buffer = [0, 0 :: real], size_cb = 2, head = 0, tail = 0, count = 0\<rparr> =
     Inr ((0, False), \<lparr>buffer = [0, 0], size_cb = 2, head = 0, tail = 0, count = 0\<rparr>)"
  using Pop_empty [of "\<lparr>buffer = [0, 0 :: real], size_cb = 2, head = 0, tail = 0, count = 0\<rparr>"]
  by (simp add: NewCircularBuffer_def make_slice_def maxAlloc_def numeral_2_eq_2)

text \<open>
  Claim C8. Average returns 0 when \<open>count = 0\<close>. On a valid buffer with \<open>count > 0\<close> it
  returns the sum of the \<open>count\<close> elements of the slots \<open>(tail + i) mod capacity\<close>, added
  to the zero value one after the other from \<open>i = 0\<close> on (the oldest first), divided by
  \<^verbatim>\<open>float64(count)\<close>. The state is returned as it was.
\<close>

theorem Average_value:
  "(count cb = 0 \<longrightarrow> Average f64 cb = Inr (0, cb)) \<and>
   (valid cb \<and> count cb \<noteq> 0 \<longrightarrow>
      Average f64 cb =
        Inr (foldl (+) 0
               (map (\<lambda>i. buffer cb ! nat ((tail cb + int i) mod size_cb cb))
                  [0..<nat (count cb)])
             / f64 (count cb), cb))"
proof (intro conjI impI)
  assume "count cb = 0"
  then show "Average f64 cb = Inr (0, cb)"
    by (simp add: Average_def)
next
  assume "valid cb \<and> count cb \<noteq> 0"
  then show "Average f64 cb =
        Inr (foldl (+) 0
               (map (\<lambda>i. buffer cb ! nat ((tail cb + int i) mod size_cb cb))
                  [0..<nat (count cb)])
             / f64 (count cb), cb)"
    by (simp add: Average_eq live_slots_def)
qed

theorem Average_value_witness:
  "count \<lparr>buffer = [0, 0 :: real], size_cb = 2, head = 0, tail = 0, count = 0\<rparr> = 0 \<and>
   Average real_of_int \<lparr>buffer = [0, 0 :: real], size_cb = 2, head = 0, tail = 0, count = 0\<rparr> =
     Inr (0, \<lparr>buffer = [0, 0], size_cb = 2, head = 0, tail = 0, count = 0\<rparr>) \<and>
   valid \<lparr>buffer = [3, 2 :: real], size_cb = 2, head = 1, tail = 1, count = 2\<rparr> \<and>
   count \<lparr>buffer = [3, 2 :: real], size_cb = 2, head = 1, tail = 1, count = 2\<rparr> \<noteq> 0 \<and>
   Average real_of_int \<lparr>buffer = [3, 2 :: real], size_cb = 2, head = 1, tail = 1, count = 2\<rparr> =
     Inr (5 / 2, \<lparr>buffer = [3, 2], size_cb = 2, head = 1, tail = 1, count = 2\<rparr>)"
proof -
  let ?e = "\<lparr>buffer = [0, 0 :: real], size_cb = 2, head = 0, tail = 0, count = 0\<rparr>"
  let ?cb = "\<lparr>buffer = [3, 2 :: real], size_cb = 2, head = 1, tail = 1, count = 2\<rparr>"
  have h: "valid ?cb"
    by (simp add: valid_def maxAlloc_def)
  have u: "[0..<2] = [0, 1 :: nat]"
    by (simp add: upt_rec)
  from Average_value [of ?e real_of_int]
  have 1: "Average real_of_int ?e = Inr (0, ?e)"
    by simp
  from Average_value [of ?cb real_of_int] h
  have 2: "Average real_of_int ?cb = Inr (5 / 2, ?cb)"
    by (simp add: u)
  from 1 2 h show ?thesis
    by simp
qed

text \<open>
  Claim C9. Construction is to reject every capacity \<open>\<le> 0\<close>, so that no operation on a
  buffer of capacity 0 can reach a slot access out of bounds or a modulo by zero. The
  code does not do so for the capacity 0: \<open>NewCircularBuffer 0\<close> returns a buffer with no
  slot, and \<open>Push\<close> on it finds \<open>count = size\<close>, takes the branch of a full buffer and
  panics at the read of slot \<open>tail\<close>, where its documentation promises that the item is
  added. \<open>Pop\<close>, \<open>Average\<close> and \<open>PrintBuffer\<close> guard the empty buffer; \<open>Push\<close> does not.
\<close>

theorem zero_capacity_accepted:
  "NewCircularBuffer 0 =
     Inr \<lparr>buffer = [] :: real list, size_cb = 0, head = 0, tail = 0, count = 0\<rparr> \<and>
   Push 1 \<lparr>buffer = [] :: real list, size_cb = 0, head = 0, tail = 0, count = 0\<rparr> =
     Inl IndexOutOfRange"
  by (simp add: NewCircularBuffer_def make_slice_def maxAlloc_def Push_def index_def)

text \<open>
  Claim C10. In every state, a call of Average (or of Snapshot) that returns leaves the
  buffer as it was, and any number of calls in a row, with no Insert or RemoveOldest
  between them, return the same result each time.
\<close>

theorem reads_repeatable:
  "(Average f64 cb = Inr (r, cb') \<longrightarrow>
      cb' = cb \<and> times n (Average f64) cb = Inr (replicate n r, cb)) \<and>
   (Snapshot cb = Inr (xs, cb'') \<longrightarrow>
      cb'' = cb \<and> times n Snapshot cb = Inr (replicate n xs, cb))"
proof (intro conjI impI)
  assume a: "Average f64 cb = Inr (r, cb')"
  then show e: "cb' = cb"
    by (rule Average_state)
  from a e have "Average f64 cb = Inr (r, cb)"
    by simp
  then show "times n (Average f64) cb = Inr (replicate n r, cb)"
    by (rule times_same)
next
  assume a: "Snapshot cb = Inr (xs, cb'')"
  then show e: "cb'' = cb"
    by (rule Snapshot_state)
  from a e have "Snapshot cb = Inr (xs, cb)"
    by simp
  then show "times n Snapshot cb = Inr (replicate n xs, cb)"
    by (rule times_same)
qed

theorem reads_repeatable_witness:
  "Average real_of_int \<lparr>buffer = [3, 2 :: real], size_cb = 2, head = 1, tail = 1, count = 2\<rparr> =
     Inr (5 / 2, \<lparr>buffer = [3, 2], size_cb = 2, head = 1, tail = 1, count = 2\<rparr>) \<and>
   times 3 (Average real_of_int) \<lparr>buffer = [3, 2 :: real], size_cb = 2, head = 1, tail = 1, count = 2\<rparr> =
     Inr ([5 / 2, 5 / 2, 5 / 2], \<lparr>buffer = [3, 2], size_cb = 2, head = 1, tail = 1, count = 2\<rparr>) \<and>
   Snapshot \<lparr>buffer = [3, 2 :: real], size_cb = 2, head = 1, tail = 1, count = 2\<rparr> =
     Inr ([2, 3], \<lparr>buffer = [3, 2], size_cb = 2, head = 1, tail = 1, count = 2\<rparr>) \<and>
   times 3 Snapshot \<lparr>buffer = [3, 2 :: real], size_cb = 2, head = 1, tail = 1, count = 2\<rparr> =
     Inr ([[2, 3], [2, 3], [2, 3]], \<lparr>buffer = [3, 2], size_cb = 2, head = 1, tail = 1, count = 2\<rparr>)"
proof -
  let ?cb = "\<lparr>buffer = [3, 2 :: real], size_cb = 2, head = 1, tail = 1, count = 2\<rparr>"
  have v: "valid ?cb"
    by (simp add: valid_def maxAlloc_def)
  have u: "[0..<2] = [0, 1 :: nat]"
    by (simp add: upt_rec)
  have a: "Average real_of_int ?cb = Inr (5 / 2, ?cb)"
    by (simp add: Average_eq [OF v] live_slots_def u)
  have s: "Snapshot ?cb = Inr ([2, 3], ?cb)"
    by (simp add: Snapshot_eq [OF v] live_slots_def u)
  from reads_repeatable [of real_of_int ?cb "5 / 2" ?cb 3 "[2, 3]" ?cb] a s
  show ?thesis
    by (simp add: numeral_3_eq_3)
qed

end
